theory Spec2Isabelle
  imports Main
begin

section \<open>The sparse-set value of the powerset abstract domain\<close>

text \<open>
  This theory embeds \<^verbatim>\<open>ssad_impl::SparseSetValue<IntegerType>\<close>, the sparse set of
  Briggs and Torczon that backs \<^verbatim>\<open>SparseSetAbstractDomain\<close>.

  \<^item> The class is a record of its four private members.
  \<^item> \<^verbatim>\<open>IntegerType\<close> is an unsigned type no wider than \<^verbatim>\<open>size_t\<close> (the two
    \<^verbatim>\<open>static_assert\<close>s of the domain), so every comparison between an element and a
    \<^verbatim>\<open>size_t\<close> compares the mathematical values, and no assignment truncates. Elements,
    indices and sizes are therefore natural numbers. The only arithmetic is \<open>n + 1\<close> in
    \<^verbatim>\<open>add\<close>, evaluated after the store \<^verbatim>\<open>m_dense[n]\<close> (so \<open>n\<close> is below the vector's
    length and cannot be the largest \<^verbatim>\<open>size_t\<close>), and \<open>n - 1\<close> in \<^verbatim>\<open>remove\<close>,
    evaluated under the guard \<open>dense_idx < n\<close>; neither wraps around.
  \<^item> \<^verbatim>\<open>std::vector::operator[]\<close> and iterator dereference outside the vector are
    undefined behaviour. The model makes them a value: every read and write is checked,
    and an access outside the vector yields \<open>Inl OutOfBounds\<close>.
  \<^item> Methods that mutate \<^verbatim>\<open>*this\<close> take the state and return the new one. The argument
    \<^verbatim>\<open>other\<close> is passed by value: the methods only read it.
\<close>

subsection \<open>Data\<close>

datatype AbstractValueKind = Bottom | Value | Top

datatype fault = OutOfBounds

record SparseSetValue =
  m_capacity :: nat
  m_element_num :: nat
  m_dense :: "nat list"
  m_sparse :: "nat list"

subsection \<open>Vectors with checked access\<close>

fun bindF :: "fault + 'a \<Rightarrow> ('a \<Rightarrow> fault + 'b) \<Rightarrow> fault + 'b" where
  "bindF (Inl f) g = Inl f"
| "bindF (Inr x) g = g x"

definition vec_at :: "'a list \<Rightarrow> nat \<Rightarrow> fault + 'a" where
  "vec_at xs i = (if i < length xs then Inr (xs ! i) else Inl OutOfBounds)"

definition vec_put :: "'a list \<Rightarrow> nat \<Rightarrow> 'a \<Rightarrow> fault + 'a list" where
  "vec_put xs i v = (if i < length xs then Inr (xs[i := v]) else Inl OutOfBounds)"

text \<open>\<^verbatim>\<open>std::vector::resize(n)\<close>: new slots are value-initialised, that is zero.\<close>

definition vec_resize :: "nat list \<Rightarrow> nat \<Rightarrow> nat list" where
  "vec_resize xs n = take n xs @ replicate (n - length xs) 0"

subsection \<open>Constructors and observers\<close>

text \<open>\<^verbatim>\<open>SparseSetValue()\<close>: capacity 0 and both vectors empty.\<close>

definition SparseSetValue_default :: SparseSetValue where
  "SparseSetValue_default =
     \<lparr>m_capacity = 0, m_element_num = 0, m_dense = [], m_sparse = []\<rparr>"

text \<open>\<^verbatim>\<open>SparseSetValue(size_t max_size)\<close>: both vectors hold \<open>max_size\<close> zeros.\<close>

definition SparseSetValue_of :: "nat \<Rightarrow> SparseSetValue" where
  "SparseSetValue_of max_size =
     \<lparr>m_capacity = max_size, m_element_num = 0,
      m_dense = replicate max_size 0, m_sparse = replicate max_size 0\<rparr>"

definition clear :: "SparseSetValue \<Rightarrow> SparseSetValue" where
  "clear s = s\<lparr>m_element_num := 0\<rparr>"

definition kind :: "SparseSetValue \<Rightarrow> AbstractValueKind" where
  "kind s = Value"

definition size_of :: "SparseSetValue \<Rightarrow> nat" where
  "size_of s = m_element_num s"

text \<open>
  \<^verbatim>\<open>elements()\<close> copies the range from \<^verbatim>\<open>begin()\<close> to
  \<^verbatim>\<open>std::next(m_dense.begin(), m_element_num)\<close>; the range leaves the vector when
  \<open>m_element_num\<close> exceeds its length.
\<close>

definition elements :: "SparseSetValue \<Rightarrow> fault + nat list" where
  "elements s =
     (if m_element_num s \<le> length (m_dense s)
      then Inr (take (m_element_num s) (m_dense s))
      else Inl OutOfBounds)"

definition contains :: "SparseSetValue \<Rightarrow> nat \<Rightarrow> fault + bool" where
  "contains s element =
     (if element \<ge> m_capacity s then Inr False
      else bindF (vec_at (m_sparse s) element) (\<lambda>dense_idx.
        if dense_idx < m_element_num s
        then bindF (vec_at (m_dense s) dense_idx) (\<lambda>d. Inr (d = element))
        else Inr False))"

subsection \<open>Insertion and deletion\<close>

definition add :: "SparseSetValue \<Rightarrow> nat \<Rightarrow> fault + SparseSetValue" where
  "add s element =
     (if element < m_capacity s then
        bindF (vec_at (m_sparse s) element) (\<lambda>dense_idx.
        let n = m_element_num s in
        bindF (if dense_idx \<ge> m_element_num s then Inr True
               else bindF (vec_at (m_dense s) dense_idx) (\<lambda>d. Inr (d \<noteq> element))) (\<lambda>absent.
        if absent then
          bindF (vec_put (m_sparse s) element n) (\<lambda>sparse'.
          bindF (vec_put (m_dense s) n element) (\<lambda>dense'.
          Inr (s\<lparr>m_sparse := sparse', m_dense := dense', m_element_num := n + 1\<rparr>)))
        else Inr s))
      else Inr s)"

text \<open>
  \<^verbatim>\<open>remove\<close> takes its argument by reference, and \<^verbatim>\<open>meet_with\<close> passes a reference
  into \<open>m_dense\<close> itself. The body reads \<open>element\<close> for the last time in the guard,
  before the store to \<open>m_dense[dense_idx]\<close>, so the value read at the call is the value
  the body works with.
\<close>

definition remove :: "SparseSetValue \<Rightarrow> nat \<Rightarrow> fault + SparseSetValue" where
  "remove s element =
     (if element < m_capacity s then
        bindF (vec_at (m_sparse s) element) (\<lambda>dense_idx.
        let n = m_element_num s in
        bindF (if dense_idx < n
               then bindF (vec_at (m_dense s) dense_idx) (\<lambda>d. Inr (d = element))
               else Inr False) (\<lambda>present.
        if present then
          bindF (vec_at (m_dense s) (n - 1)) (\<lambda>last_element.
          bindF (vec_put (m_dense s) dense_idx last_element) (\<lambda>dense'.
          bindF (vec_put (m_sparse s) last_element dense_idx) (\<lambda>sparse'.
          Inr (s\<lparr>m_element_num := n - 1, m_dense := dense', m_sparse := sparse'\<rparr>))))
        else Inr s))
      else Inr s)"

subsection \<open>Order\<close>

text \<open>The loop of \<^verbatim>\<open>leq\<close>, from index \<open>i\<close> on.\<close>

function leq_loop :: "SparseSetValue \<Rightarrow> SparseSetValue \<Rightarrow> nat \<Rightarrow> fault + bool" where
  "leq_loop s other i =
     (if i < m_element_num s then
        (case vec_at (m_dense s) i of
           Inl f \<Rightarrow> Inl f
         | Inr e \<Rightarrow>
            (case contains other e of
               Inl f \<Rightarrow> Inl f
             | Inr c \<Rightarrow> if \<not> c then Inr False else leq_loop s other (i + 1)))
      else Inr True)"
  by pat_completeness auto
termination
  by (relation "measure (\<lambda>(s, other, i). m_element_num s - i)") auto

definition leq :: "SparseSetValue \<Rightarrow> SparseSetValue \<Rightarrow> fault + bool" where
  "leq s other =
     (if m_element_num s > m_element_num other then Inr False
      else leq_loop s other 0)"

definition equals :: "SparseSetValue \<Rightarrow> SparseSetValue \<Rightarrow> fault + bool" where
  "equals s other =
     (if m_element_num s = m_element_num other then leq s other else Inr False)"

subsection \<open>Join and meet\<close>

text \<open>The body of the range-based \<^verbatim>\<open>for\<close> of \<^verbatim>\<open>join_with\<close>, over the elements read.\<close>

fun add_all :: "SparseSetValue \<Rightarrow> nat list \<Rightarrow> fault + SparseSetValue" where
  "add_all s [] = Inr s"
| "add_all s (e # es) = bindF (add s e) (\<lambda>s'. add_all s' es)"

definition join_with ::
  "SparseSetValue \<Rightarrow> SparseSetValue \<Rightarrow> fault + (AbstractValueKind \<times> SparseSetValue)" where
  "join_with s other =
     (let s1 = (if m_capacity other > m_capacity s
                then s\<lparr>m_dense := vec_resize (m_dense s) (m_capacity other),
                       m_sparse := vec_resize (m_sparse s) (m_capacity other),
                       m_capacity := m_capacity other\<rparr>
                else s)
      in bindF (elements other) (\<lambda>es.
         bindF (add_all s1 es) (\<lambda>s2. Inr (Value, s2))))"

definition widen_with ::
  "SparseSetValue \<Rightarrow> SparseSetValue \<Rightarrow> fault + (AbstractValueKind \<times> SparseSetValue)" where
  "widen_with s other = join_with s other"

text \<open>
  The loop of \<^verbatim>\<open>meet_with\<close>, with the iterator \<^verbatim>\<open>it\<close> at index \<open>i\<close>. The test is
  \<^verbatim>\<open>it != end()\<close>, and \<^verbatim>\<open>end()\<close> is computed from \<open>m_element_num\<close> at every round, so
  nothing in the loop itself bounds the number of rounds: the result is \<open>None\<close> when the
  loop runs forever.
\<close>

partial_function (option) meet_loop ::
  "SparseSetValue \<Rightarrow> nat \<Rightarrow> SparseSetValue \<Rightarrow> (fault + SparseSetValue) option" where
  "meet_loop other i s =
     (if m_element_num s > length (m_dense s) then Some (Inl OutOfBounds)
      else if i = m_element_num s then Some (Inr s)
      else
        (case vec_at (m_dense s) i of
           Inl f \<Rightarrow> Some (Inl f)
         | Inr e \<Rightarrow>
            (case contains other e of
               Inl f \<Rightarrow> Some (Inl f)
             | Inr c \<Rightarrow>
                if \<not> c then
                  (case remove s e of
                     Inl f \<Rightarrow> Some (Inl f)
                   | Inr s' \<Rightarrow> meet_loop other i s')
                else meet_loop other (i + 1) s)))"

declare meet_loop.simps [code]

definition meet_with ::
  "SparseSetValue \<Rightarrow> SparseSetValue \<Rightarrow> (fault + (AbstractValueKind \<times> SparseSetValue)) option" where
  "meet_with s other =
     (case meet_loop other 0 s of
        None \<Rightarrow> None
      | Some (Inl f) \<Rightarrow> Some (Inl f)
      | Some (Inr s') \<Rightarrow> Some (Inr (Value, s')))"

definition narrow_with ::
  "SparseSetValue \<Rightarrow> SparseSetValue \<Rightarrow> (fault + (AbstractValueKind \<times> SparseSetValue)) option" where
  "narrow_with s other = meet_with s other"

subsection \<open>Representation invariant and element set\<close>

text \<open>
  Both vectors have \<open>m_capacity\<close> slots, at most \<open>m_capacity\<close> of them are in use, and the
  sparse slot of every element in use points back at it: \<open>sparse[dense[i]] == i\<close>, read
  with the checked access.
\<close>

definition rep_inv :: "SparseSetValue \<Rightarrow> bool" where
  "rep_inv s \<longleftrightarrow>
     length (m_dense s) = m_capacity s \<and>
     length (m_sparse s) = m_capacity s \<and>
     m_element_num s \<le> m_capacity s \<and>
     (\<forall>i < m_element_num s. vec_at (m_sparse s) (m_dense s ! i) = Inr i)"

text \<open>The set a value stands for: the slots of \<open>m_dense\<close> in use.\<close>

definition elems :: "SparseSetValue \<Rightarrow> nat set" where
  "elems s = set (take (m_element_num s) (m_dense s))"

text \<open>
  The state \<^verbatim>\<open>add\<close> leaves when it inserts, and the state \<^verbatim>\<open>remove\<close> leaves when it
  deletes by moving the last slot in use into the freed one.
\<close>

definition add_result :: "SparseSetValue \<Rightarrow> nat \<Rightarrow> SparseSetValue" where
  "add_result s e =
     s\<lparr>m_sparse := (m_sparse s)[e := m_element_num s],
       m_dense := (m_dense s)[m_element_num s := e],
       m_element_num := m_element_num s + 1\<rparr>"

definition remove_result :: "SparseSetValue \<Rightarrow> nat \<Rightarrow> SparseSetValue" where
  "remove_result s e =
     s\<lparr>m_element_num := m_element_num s - 1,
       m_dense := (m_dense s)[m_sparse s ! e := m_dense s ! (m_element_num s - 1)],
       m_sparse := (m_sparse s)[m_dense s ! (m_element_num s - 1) := m_sparse s ! e]\<rparr>"

subsection \<open>Example values\<close>

text \<open>
  The two sets of the first test scenario, capacity 8 with \<open>{1, 3, 5}\<close> and \<open>{3, 5, 7}\<close>,
  in the state that adding their elements in this order builds.
\<close>

definition scenario_A :: SparseSetValue where
  "scenario_A =
     \<lparr>m_capacity = 8, m_element_num = 3,
      m_dense = [1, 3, 5, 0, 0, 0, 0, 0], m_sparse = [0, 0, 0, 1, 0, 2, 0, 0]\<rparr>"

definition scenario_B :: SparseSetValue where
  "scenario_B =
     \<lparr>m_capacity = 8, m_element_num = 3,
      m_dense = [3, 5, 7, 0, 0, 0, 0, 0], m_sparse = [0, 0, 0, 0, 0, 1, 0, 2]\<rparr>"

text \<open>
  The two sets of the second test scenario: capacity 4 with \<open>{0, 2}\<close>, and capacity 10
  with \<open>{9}\<close>.
\<close>

definition scenario_C :: SparseSetValue where
  "scenario_C =
     \<lparr>m_capacity = 4, m_element_num = 2, m_dense = [0, 2, 0, 0], m_sparse = [0, 0, 1, 0]\<rparr>"

definition scenario_D :: SparseSetValue where
  "scenario_D =
     \<lparr>m_capacity = 10, m_element_num = 1,
      m_dense = [9, 0, 0, 0, 0, 0, 0, 0, 0, 0], m_sparse = [0, 0, 0, 0, 0, 0, 0, 0, 0, 0]\<rparr>"

subsection \<open>Values a program can build\<close>

text \<open>
  A program obtains a value from one of the two constructors and changes it through the
  public methods only (\<^verbatim>\<open>widen_with\<close> and \<^verbatim>\<open>narrow_with\<close> are \<^verbatim>\<open>join_with\<close> and
  \<^verbatim>\<open>meet_with\<close>; copying yields the same state).
\<close>

inductive reachable :: "SparseSetValue \<Rightarrow> bool" where
  by_default: "reachable SparseSetValue_default"
| by_capacity: "reachable (SparseSetValue_of max_size)"
| by_clear: "reachable s \<Longrightarrow> reachable (clear s)"
| by_add: "reachable s \<Longrightarrow> add s e = Inr s' \<Longrightarrow> reachable s'"
| by_remove: "reachable s \<Longrightarrow> remove s e = Inr s' \<Longrightarrow> reachable s'"
| by_join: "reachable s \<Longrightarrow> reachable other \<Longrightarrow> join_with s other = Inr (k, s') \<Longrightarrow> reachable s'"
| by_meet: "reachable s \<Longrightarrow> reachable other \<Longrightarrow> meet_with s other = Some (Inr (k, s'))
     \<Longrightarrow> reachable s'"

section \<open>Properties\<close>

subsection \<open>Consequences of the invariant\<close>

lemma rep_inv_code [code]:
  "rep_inv s \<longleftrightarrow>
     length (m_dense s) = m_capacity s \<and>
     length (m_sparse s) = m_capacity s \<and>
     m_element_num s \<le> m_capacity s \<and>
     list_all (\<lambda>i. vec_at (m_sparse s) (m_dense s ! i) = Inr i) [0..<m_element_num s]"
  by (auto simp: rep_inv_def list_all_iff)

lemma inv_nth:
  assumes "rep_inv s" "i < m_element_num s"
  shows "m_dense s ! i < m_capacity s" "m_sparse s ! (m_dense s ! i) = i"
  using assms by (auto simp: rep_inv_def vec_at_def split: if_splits)

lemma inv_distinct:
  assumes "rep_inv s"
  shows "distinct (take (m_element_num s) (m_dense s))"
proof -
  have len: "m_element_num s \<le> length (m_dense s)"
    using assms by (simp add: rep_inv_def)
  show ?thesis
  proof (subst distinct_conv_nth, intro allI impI)
    fix i j
    assume i: "i < length (take (m_element_num s) (m_dense s))"
       and j: "j < length (take (m_element_num s) (m_dense s))" and ne: "i \<noteq> j"
    from i j have ij: "i < m_element_num s" "j < m_element_num s" by simp_all
    show "take (m_element_num s) (m_dense s) ! i \<noteq> take (m_element_num s) (m_dense s) ! j"
    proof
      assume "take (m_element_num s) (m_dense s) ! i = take (m_element_num s) (m_dense s) ! j"
      with ij have "m_dense s ! i = m_dense s ! j" by simp
      then have "m_sparse s ! (m_dense s ! i) = m_sparse s ! (m_dense s ! j)" by simp
      with inv_nth(2)[OF assms ij(1)] inv_nth(2)[OF assms ij(2)] ne show False by simp
    qed
  qed
qed

lemma elems_nth:
  assumes "rep_inv s"
  shows "e \<in> elems s \<longleftrightarrow> (\<exists>i < m_element_num s. m_dense s ! i = e)"
proof -
  have len: "m_element_num s \<le> length (m_dense s)"
    using assms by (simp add: rep_inv_def)
  then show ?thesis
    by (auto simp: elems_def in_set_conv_nth)
qed

lemma elems_lt:
  assumes "rep_inv s" "e \<in> elems s"
  shows "e < m_capacity s"
  using assms inv_nth(1) by (auto simp: elems_nth)

lemma elems_sparse:
  assumes "rep_inv s"
  shows "e \<in> elems s \<longleftrightarrow>
    e < m_capacity s \<and> m_sparse s ! e < m_element_num s \<and> m_dense s ! (m_sparse s ! e) = e"
  using assms inv_nth[OF assms] by (auto simp: elems_nth)

lemma contains_iff:
  assumes "rep_inv s"
  shows "contains s e = Inr (e \<in> elems s)"
proof -
  have shape: "length (m_dense s) = m_capacity s" "length (m_sparse s) = m_capacity s"
    "m_element_num s \<le> m_capacity s"
    using assms by (simp_all add: rep_inv_def)
  show ?thesis
    using shape by (simp add: contains_def vec_at_def elems_sparse[OF assms])
qed

lemma card_elems:
  assumes "rep_inv s"
  shows "card (elems s) = m_element_num s"
proof -
  have "m_element_num s \<le> length (m_dense s)"
    using assms by (simp add: rep_inv_def)
  then show ?thesis
    using distinct_card[OF inv_distinct[OF assms]] by (simp add: elems_def)
qed

lemma room:
  assumes "rep_inv s" "e < m_capacity s" "e \<notin> elems s"
  shows "m_element_num s < m_capacity s"
proof -
  have sub: "insert e (elems s) \<subseteq> {..<m_capacity s}"
    using assms elems_lt[OF assms(1)] by auto
  have fin: "finite (elems s)" by (simp add: elems_def)
  have "card (insert e (elems s)) = Suc (m_element_num s)"
    using assms(3) fin card_elems[OF assms(1)] by simp
  moreover have "card (insert e (elems s)) \<le> card {..<m_capacity s}"
    using sub by (intro card_mono) simp_all
  ultimately show ?thesis by simp
qed

subsection \<open>Insertion\<close>

lemma add_eq:
  assumes "rep_inv s"
  shows "add s e = Inr (if e < m_capacity s \<and> e \<notin> elems s then add_result s e else s)"
proof (cases "e < m_capacity s \<and> e \<notin> elems s")
  case True
  have shape: "length (m_dense s) = m_capacity s" "length (m_sparse s) = m_capacity s"
    using assms by (simp_all add: rep_inv_def)
  have n: "m_element_num s < m_capacity s"
    using room[OF assms, of e] True by simp
  have absent: "m_sparse s ! e < m_element_num s \<longrightarrow> m_dense s ! (m_sparse s ! e) \<noteq> e"
    using True elems_sparse[OF assms, of e] by simp
  show ?thesis
    using True shape n absent
    by (simp add: add_def vec_at_def vec_put_def add_result_def Let_def)
next
  case False
  have shape: "length (m_dense s) = m_capacity s" "length (m_sparse s) = m_capacity s"
    "m_element_num s \<le> m_capacity s"
    using assms by (simp_all add: rep_inv_def)
  show ?thesis
  proof (cases "e < m_capacity s")
    case True
    with False have "e \<in> elems s" by simp
    then have "m_sparse s ! e < m_element_num s" "m_dense s ! (m_sparse s ! e) = e"
      using elems_sparse[OF assms, of e] by simp_all
    then show ?thesis
      using True False shape by (simp add: add_def vec_at_def Let_def)
  next
    case False
    then show ?thesis by (simp add: add_def)
  qed
qed

lemma add_result_inv:
  assumes "rep_inv s" "e < m_capacity s" "e \<notin> elems s"
  shows "rep_inv (add_result s e)"
proof -
  have shape: "length (m_dense s) = m_capacity s" "length (m_sparse s) = m_capacity s"
    using assms by (simp_all add: rep_inv_def)
  have n: "m_element_num s < m_capacity s"
    using room[OF assms] .
  have "vec_at ((m_sparse s)[e := m_element_num s]) ((m_dense s)[m_element_num s := e] ! i) = Inr i"
    if i: "i < m_element_num s + 1" for i
  proof (cases "i = m_element_num s")
    case True
    then show ?thesis using shape n assms(2) by (simp add: vec_at_def)
  next
    case False
    with i have lt: "i < m_element_num s" by simp
    then have ne: "m_dense s ! i \<noteq> e"
      using assms(3) elems_nth[OF assms(1), of e] by auto
    show ?thesis
      using False lt ne inv_nth[OF assms(1) lt] shape by (simp add: vec_at_def)
  qed
  then show ?thesis
    using shape n by (simp add: rep_inv_def add_result_def)
qed

lemma add_result_elems:
  assumes "m_element_num s < length (m_dense s)"
  shows "elems (add_result s e) = insert e (elems s)"
  using assms by (simp add: elems_def add_result_def take_Suc_conv_app_nth)

lemma add_inv:
  assumes "rep_inv s"
  shows "\<exists>s'. add s e = Inr s' \<and> rep_inv s' \<and> m_capacity s' = m_capacity s \<and>
           elems s' = (if e < m_capacity s then insert e (elems s) else elems s)"
proof (cases "e < m_capacity s \<and> e \<notin> elems s")
  case True
  have "m_element_num s < length (m_dense s)"
    using room[OF assms, of e] True assms by (simp add: rep_inv_def)
  then show ?thesis
    using True add_eq[OF assms, of e] add_result_inv[OF assms, of e] add_result_elems[of s e]
    by (simp add: add_result_def)
next
  case False
  then show ?thesis
    using add_eq[OF assms, of e] assms by auto
qed

subsection \<open>Deletion\<close>

lemma remove_eq:
  assumes "rep_inv s"
  shows "remove s e = Inr (if e \<in> elems s then remove_result s e else s)"
proof (cases "e \<in> elems s")
  case True
  have shape: "length (m_dense s) = m_capacity s" "length (m_sparse s) = m_capacity s"
    "m_element_num s \<le> m_capacity s"
    using assms by (simp_all add: rep_inv_def)
  have e: "e < m_capacity s" "m_sparse s ! e < m_element_num s"
    "m_dense s ! (m_sparse s ! e) = e"
    using True elems_sparse[OF assms, of e] by simp_all
  have last: "m_element_num s - 1 < m_element_num s" using e(2) by simp
  have "m_dense s ! (m_element_num s - 1) < m_capacity s"
    using inv_nth(1)[OF assms last] .
  then show ?thesis
    using True shape e last
    by (simp add: remove_def vec_at_def vec_put_def remove_result_def Let_def)
next
  case False
  have shape: "length (m_dense s) = m_capacity s" "length (m_sparse s) = m_capacity s"
    "m_element_num s \<le> m_capacity s"
    using assms by (simp_all add: rep_inv_def)
  have "\<not> (e < m_capacity s \<and> m_sparse s ! e < m_element_num s \<and>
    m_dense s ! (m_sparse s ! e) = e)"
    using False elems_sparse[OF assms, of e] by simp
  then show ?thesis
    using False shape by (auto simp: remove_def vec_at_def Let_def)
qed

lemma remove_result_nth:
  assumes "rep_inv s" "e \<in> elems s" "i < m_element_num s - 1"
  shows "m_dense (remove_result s e) ! i =
           (if i = m_sparse s ! e then m_dense s ! (m_element_num s - 1) else m_dense s ! i)"
proof -
  have "m_sparse s ! e < length (m_dense s)"
    using assms elems_sparse[OF assms(1), of e] by (simp add: rep_inv_def)
  then show ?thesis by (simp add: remove_result_def)
qed

lemma remove_result_inv:
  assumes "rep_inv s" "e \<in> elems s"
  shows "rep_inv (remove_result s e)"
proof -
  let ?n = "m_element_num s"
  let ?last = "m_dense s ! (?n - 1)"
  let ?idx = "m_sparse s ! e"
  have shape: "length (m_dense s) = m_capacity s" "length (m_sparse s) = m_capacity s"
    "?n \<le> m_capacity s"
    using assms by (simp_all add: rep_inv_def)
  have e: "e < m_capacity s" "?idx < ?n" "m_dense s ! ?idx = e"
    using assms(2) elems_sparse[OF assms(1), of e] by simp_all
  have lastn: "?n - 1 < ?n" using e(2) by simp
  have last: "?last < m_capacity s" "m_sparse s ! ?last = ?n - 1"
    using inv_nth[OF assms(1) lastn] by simp_all
  have "vec_at ((m_sparse s)[?last := ?idx]) (m_dense (remove_result s e) ! i) = Inr i"
    if i: "i < ?n - 1" for i
  proof (cases "i = ?idx")
    case True
    then show ?thesis
      using remove_result_nth[OF assms i] last(1) shape by (simp add: vec_at_def)
  next
    case False
    from i have lt: "i < ?n" by simp
    have "m_dense s ! i \<noteq> ?last"
    proof
      assume "m_dense s ! i = ?last"
      then have "m_sparse s ! (m_dense s ! i) = m_sparse s ! ?last" by simp
      then show False using inv_nth(2)[OF assms(1) lt] last(2) i by simp
    qed
    then show ?thesis
      using False remove_result_nth[OF assms i] inv_nth[OF assms(1) lt] shape
      by (simp add: vec_at_def)
  qed
  then have "\<forall>i < ?n - 1. vec_at ((m_sparse s)[?last := ?idx]) (m_dense (remove_result s e) ! i) = Inr i"
    by blast
  moreover have "m_sparse (remove_result s e) = (m_sparse s)[?last := ?idx]"
    "m_element_num (remove_result s e) = ?n - 1"
    "m_capacity (remove_result s e) = m_capacity s"
    "length (m_dense (remove_result s e)) = length (m_dense s)"
    by (simp_all add: remove_result_def)
  ultimately show ?thesis
    using shape unfolding rep_inv_def by simp
qed

lemma remove_result_elems:
  assumes "rep_inv s" "e \<in> elems s"
  shows "elems (remove_result s e) = elems s - {e}"
proof -
  let ?n = "m_element_num s"
  let ?last = "m_dense s ! (?n - 1)"
  let ?idx = "m_sparse s ! e"
  let ?s' = "remove_result s e"
  have inv': "rep_inv ?s'" using remove_result_inv[OF assms] .
  have n': "m_element_num ?s' = ?n - 1" by (simp add: remove_result_def)
  have e: "e < m_capacity s" "?idx < ?n" "m_dense s ! ?idx = e"
    using assms(2) elems_sparse[OF assms(1), of e] by simp_all
  have lastn: "?n - 1 < ?n" using e(2) by simp
  have last: "m_sparse s ! ?last = ?n - 1"
    using inv_nth(2)[OF assms(1) lastn] .
  show ?thesis
  proof (intro set_eqI iffI)
    fix x assume "x \<in> elems ?s'"
    then obtain i where i: "i < ?n - 1" "m_dense ?s' ! i = x"
      using elems_nth[OF inv', of x] n' by auto
    have lt: "i < ?n" using i(1) by simp
    have x: "x = (if i = ?idx then ?last else m_dense s ! i)"
      using remove_result_nth[OF assms i(1)] i(2) by simp
    have "\<exists>k < ?n. m_dense s ! k = x"
    proof (cases "i = ?idx")
      case True
      with x have "m_dense s ! (?n - 1) = x" by simp
      with lastn show ?thesis by blast
    next
      case False
      with x have "m_dense s ! i = x" by simp
      with lt show ?thesis by blast
    qed
    then have "x \<in> elems s"
      using elems_nth[OF assms(1), of x] by simp
    moreover have "x \<noteq> e"
    proof
      assume "x = e"
      show False
      proof (cases "i = ?idx")
        case True
        with x \<open>x = e\<close> have "?last = e" by simp
        then have "m_sparse s ! ?last = ?idx" by simp
        with last True i(1) show False by simp
      next
        case False
        with x \<open>x = e\<close> have "m_dense s ! i = e" by simp
        then have "m_sparse s ! (m_dense s ! i) = ?idx" by simp
        with inv_nth(2)[OF assms(1) lt] False show False by simp
      qed
    qed
    ultimately show "x \<in> elems s - {e}" by simp
  next
    fix x assume "x \<in> elems s - {e}"
    then have xin: "x \<in> elems s" and xne: "x \<noteq> e" by simp_all
    then obtain j where j: "j < ?n" "m_dense s ! j = x"
      using elems_nth[OF assms(1), of x] by auto
    have jne: "j \<noteq> ?idx" using j(2) e(3) xne by auto
    show "x \<in> elems ?s'"
    proof (cases "j = ?n - 1")
      case True
      then have idx: "?idx < ?n - 1" using jne e(2) j(1) by simp
      have "m_dense ?s' ! ?idx = x"
        using remove_result_nth[OF assms idx] True j(2) by simp
      then show ?thesis
        using idx elems_nth[OF inv', of x] n' by auto
    next
      case False
      then have lt: "j < ?n - 1" using j(1) by simp
      have "m_dense ?s' ! j = x"
        using remove_result_nth[OF assms lt] jne j(2) by simp
      then show ?thesis
        using lt elems_nth[OF inv', of x] n' by auto
    qed
  qed
qed

lemma remove_inv:
  assumes "rep_inv s"
  shows "\<exists>s'. remove s e = Inr s' \<and> rep_inv s' \<and> m_capacity s' = m_capacity s \<and>
           elems s' = elems s - {e}"
proof (cases "e \<in> elems s")
  case True
  then show ?thesis
    using remove_eq[OF assms, of e] remove_result_inv[OF assms True]
      remove_result_elems[OF assms True]
    by (simp add: remove_result_def)
next
  case False
  then show ?thesis
    using remove_eq[OF assms, of e] assms by simp
qed

subsection \<open>The example values are built by the code\<close>

lemma scenario_A_built: "add_all (SparseSetValue_of 8) [1, 3, 5] = Inr scenario_A"
  by code_simp

lemma scenario_B_built: "add_all (SparseSetValue_of 8) [3, 5, 7] = Inr scenario_B"
  by code_simp

lemma scenario_C_built: "add_all (SparseSetValue_of 4) [0, 2] = Inr scenario_C"
  by code_simp

lemma scenario_D_built: "add_all (SparseSetValue_of 10) [9] = Inr scenario_D"
  by code_simp

subsection \<open>Join\<close>

lemma add_prefix:
  assumes "rep_inv s" "add s e = Inr s'"
  shows "m_element_num s \<le> m_element_num s' \<and>
         take (m_element_num s) (m_dense s') = take (m_element_num s) (m_dense s)"
  using assms add_eq[OF assms(1), of e]
  by (auto simp: add_result_def split: if_splits)

lemma add_all_inv:
  assumes "rep_inv s"
  shows "\<exists>s'. add_all s es = Inr s' \<and> rep_inv s' \<and> m_capacity s' = m_capacity s \<and>
           elems s' = elems s \<union> {e \<in> set es. e < m_capacity s} \<and>
           m_element_num s \<le> m_element_num s' \<and>
           take (m_element_num s) (m_dense s') = take (m_element_num s) (m_dense s)"
  using assms
proof (induction es arbitrary: s)
  case Nil
  then show ?case by simp
next
  case (Cons e es)
  obtain s1 where s1: "add s e = Inr s1" "rep_inv s1" "m_capacity s1 = m_capacity s"
    "elems s1 = (if e < m_capacity s then insert e (elems s) else elems s)"
    using add_inv[OF Cons.prems, of e] by blast
  have p1: "m_element_num s \<le> m_element_num s1"
    "take (m_element_num s) (m_dense s1) = take (m_element_num s) (m_dense s)"
    using add_prefix[OF Cons.prems s1(1)] by simp_all
  obtain s2 where s2: "add_all s1 es = Inr s2" "rep_inv s2" "m_capacity s2 = m_capacity s1"
    "elems s2 = elems s1 \<union> {x \<in> set es. x < m_capacity s1}"
    "m_element_num s1 \<le> m_element_num s2"
    "take (m_element_num s1) (m_dense s2) = take (m_element_num s1) (m_dense s1)"
    using Cons.IH[OF s1(2)] by blast
  have "take (m_element_num s) (take (m_element_num s1) (m_dense s2)) =
        take (m_element_num s) (take (m_element_num s1) (m_dense s1))"
    using s2(6) by simp
  then have pre: "take (m_element_num s) (m_dense s2) = take (m_element_num s) (m_dense s)"
    using p1 by (simp add: min_absorb1)
  have el: "elems s2 = elems s \<union> {x \<in> set (e # es). x < m_capacity s}"
    using s1(3,4) s2(4) by auto
  have "add_all s (e # es) = Inr s2" using s1(1) s2(1) by simp
  then show ?case
    using s2(2,3,5) s1(3) p1(1) pre el by (intro exI[of _ s2]) simp
qed

lemma grow_inv:
  assumes "rep_inv s" "m_capacity s < c"
  shows "rep_inv (s\<lparr>m_dense := vec_resize (m_dense s) c,
                    m_sparse := vec_resize (m_sparse s) c, m_capacity := c\<rparr>)"
proof -
  have shape: "length (m_dense s) = m_capacity s" "length (m_sparse s) = m_capacity s"
    "m_element_num s \<le> m_capacity s"
    using assms by (simp_all add: rep_inv_def)
  have d: "vec_resize (m_dense s) c = m_dense s @ replicate (c - m_capacity s) 0"
    and sp: "vec_resize (m_sparse s) c = m_sparse s @ replicate (c - m_capacity s) 0"
    using shape assms(2) by (simp_all add: vec_resize_def)
  have "vec_at (m_sparse s @ replicate (c - m_capacity s) 0)
          ((m_dense s @ replicate (c - m_capacity s) 0) ! i) = Inr i"
    if i: "i < m_element_num s" for i
    using inv_nth[OF assms(1) i] i shape by (simp add: vec_at_def nth_append)
  then show ?thesis
    using shape assms(2) by (simp add: rep_inv_def d sp)
qed

lemma grow_elems:
  assumes "rep_inv s" "m_capacity s < c"
  shows "elems (s\<lparr>m_dense := vec_resize (m_dense s) c,
                  m_sparse := vec_resize (m_sparse s) c, m_capacity := c\<rparr>) = elems s"
    and "take (m_element_num s) (vec_resize (m_dense s) c) = take (m_element_num s) (m_dense s)"
proof -
  have shape: "length (m_dense s) = m_capacity s" "m_element_num s \<le> m_capacity s"
    using assms by (simp_all add: rep_inv_def)
  show "take (m_element_num s) (vec_resize (m_dense s) c) = take (m_element_num s) (m_dense s)"
    using shape assms(2) by (simp add: vec_resize_def)
  then show "elems (s\<lparr>m_dense := vec_resize (m_dense s) c,
                  m_sparse := vec_resize (m_sparse s) c, m_capacity := c\<rparr>) = elems s"
    by (simp add: elems_def)
qed

lemma elements_eq:
  assumes "rep_inv s"
  shows "elements s = Inr (take (m_element_num s) (m_dense s))"
  using assms by (simp add: elements_def rep_inv_def)

lemma join_with_inv:
  assumes "rep_inv s" "rep_inv other"
  shows "\<exists>s'. join_with s other = Inr (Value, s') \<and> rep_inv s' \<and>
           m_capacity s' = max (m_capacity s) (m_capacity other) \<and>
           elems s' = elems s \<union> elems other \<and>
           m_element_num s \<le> m_element_num s' \<and>
           take (m_element_num s) (m_dense s') = take (m_element_num s) (m_dense s)"
proof -
  let ?c = "m_capacity other"
  let ?s1 = "if m_capacity s < ?c
             then s\<lparr>m_dense := vec_resize (m_dense s) ?c,
                    m_sparse := vec_resize (m_sparse s) ?c, m_capacity := ?c\<rparr>
             else s"
  have s1: "rep_inv ?s1" "elems ?s1 = elems s" "m_element_num ?s1 = m_element_num s"
    "m_capacity ?s1 = max (m_capacity s) ?c"
    "take (m_element_num s) (m_dense ?s1) = take (m_element_num s) (m_dense s)"
    using assms(1) grow_inv[OF assms(1), of ?c] grow_elems[OF assms(1), of ?c]
    by (simp_all add: max_def)
  obtain s2 where s2: "add_all ?s1 (take (m_element_num other) (m_dense other)) = Inr s2"
    "rep_inv s2" "m_capacity s2 = m_capacity ?s1"
    "elems s2 = elems ?s1 \<union>
       {e \<in> set (take (m_element_num other) (m_dense other)). e < m_capacity ?s1}"
    "m_element_num ?s1 \<le> m_element_num s2"
    "take (m_element_num ?s1) (m_dense s2) = take (m_element_num ?s1) (m_dense ?s1)"
    using add_all_inv[OF s1(1), of "take (m_element_num other) (m_dense other)"] by blast
  have "e < m_capacity ?s1" if "e \<in> elems other" for e
    using elems_lt[OF assms(2) that] by simp
  then have "{e \<in> elems other. e < m_capacity ?s1} = elems other"
    by blast
  then have el: "elems s2 = elems s \<union> elems other"
    using s2(4) s1(2) by (simp add: elems_def)
  have "join_with s other = Inr (Value, s2)"
    using s2(1) elements_eq[OF assms(2)] by (simp add: join_with_def Let_def)
  then show ?thesis
    using s2(2,3,5,6) s1(3,4,5) el by (intro exI[of _ s2]) simp
qed

subsection \<open>Order\<close>

lemma leq_loop_eq:
  assumes "rep_inv s" "rep_inv other"
  shows "leq_loop s other i =
           Inr (\<forall>j. i \<le> j \<and> j < m_element_num s \<longrightarrow> m_dense s ! j \<in> elems other)"
  using assms
proof (induction s other i rule: leq_loop.induct)
  case (1 s other i)
  show ?case
  proof (cases "i < m_element_num s")
    case True
    have rd: "vec_at (m_dense s) i = Inr (m_dense s ! i)"
      using True "1.prems"(1) by (simp add: vec_at_def rep_inv_def)
    have ct: "contains other (m_dense s ! i) = Inr (m_dense s ! i \<in> elems other)"
      using contains_iff[OF "1.prems"(2)] .
    show ?thesis
    proof (cases "m_dense s ! i \<in> elems other")
      case in_other: True
      have "leq_loop s other i = leq_loop s other (i + 1)"
        using True rd ct in_other by (subst leq_loop.simps) simp
      also have "\<dots> = Inr (\<forall>j. i + 1 \<le> j \<and> j < m_element_num s \<longrightarrow>
                             m_dense s ! j \<in> elems other)"
        using "1.IH"[OF True rd] ct in_other "1.prems" by simp
      also have "(\<forall>j. i + 1 \<le> j \<and> j < m_element_num s \<longrightarrow> m_dense s ! j \<in> elems other) =
                 (\<forall>j. i \<le> j \<and> j < m_element_num s \<longrightarrow> m_dense s ! j \<in> elems other)"
      proof (intro iffI allI impI)
        fix j
        assume a: "\<forall>j. i + 1 \<le> j \<and> j < m_element_num s \<longrightarrow> m_dense s ! j \<in> elems other"
          and j: "i \<le> j \<and> j < m_element_num s"
        show "m_dense s ! j \<in> elems other"
        proof (cases "j = i")
          case True
          then show ?thesis using in_other by simp
        next
          case False
          with j have "i + 1 \<le> j \<and> j < m_element_num s" by simp
          with a show ?thesis by blast
        qed
      next
        fix j
        assume a: "\<forall>j. i \<le> j \<and> j < m_element_num s \<longrightarrow> m_dense s ! j \<in> elems other"
          and j: "i + 1 \<le> j \<and> j < m_element_num s"
        then have "i \<le> j \<and> j < m_element_num s" by simp
        with a show "m_dense s ! j \<in> elems other" by blast
      qed
      finally show ?thesis .
    next
      case False
      have "leq_loop s other i = Inr False"
        using True rd ct False by (subst leq_loop.simps) simp
      moreover have "\<not> (\<forall>j. i \<le> j \<and> j < m_element_num s \<longrightarrow> m_dense s ! j \<in> elems other)"
        using True False by auto
      ultimately show ?thesis by simp
    qed
  next
    case False
    then show ?thesis by (subst leq_loop.simps) auto
  qed
qed

lemma leq_eq:
  assumes "rep_inv s" "rep_inv other"
  shows "leq s other = Inr (elems s \<subseteq> elems other)"
proof (cases "m_element_num s > m_element_num other")
  case True
  have "\<not> elems s \<subseteq> elems other"
  proof
    assume "elems s \<subseteq> elems other"
    moreover have "finite (elems other)" by (simp add: elems_def)
    ultimately have "card (elems s) \<le> card (elems other)" by (rule card_mono[rotated])
    then show False
      using True card_elems[OF assms(1)] card_elems[OF assms(2)] by simp
  qed
  then show ?thesis using True by (simp add: leq_def)
next
  case False
  have "(\<forall>j. 0 \<le> j \<and> j < m_element_num s \<longrightarrow> m_dense s ! j \<in> elems other) =
        (elems s \<subseteq> elems other)"
    using elems_nth[OF assms(1)] by auto
  then show ?thesis
    using False leq_loop_eq[OF assms, of 0] by (simp add: leq_def)
qed

lemma equals_eq:
  assumes "rep_inv s" "rep_inv other"
  shows "equals s other = Inr (elems s = elems other)"
proof (cases "m_element_num s = m_element_num other")
  case True
  have "elems s \<subseteq> elems other \<longleftrightarrow> elems s = elems other"
  proof
    assume sub: "elems s \<subseteq> elems other"
    have "finite (elems other)" by (simp add: elems_def)
    moreover have "card (elems other) \<le> card (elems s)"
      using True card_elems[OF assms(1)] card_elems[OF assms(2)] by simp
    ultimately show "elems s = elems other"
      using sub card_seteq[of "elems other" "elems s"] by simp
  qed simp
  then show ?thesis
    using True leq_eq[OF assms] by (simp add: equals_def)
next
  case False
  then have "elems s \<noteq> elems other"
    using card_elems[OF assms(1)] card_elems[OF assms(2)] by auto
  then show ?thesis using False by (simp add: equals_def)
qed

subsection \<open>Meet\<close>

lemma meet_loop_correct:
  assumes "rep_inv s" "rep_inv other" "i \<le> m_element_num s"
    "\<forall>j < i. m_dense s ! j \<in> elems other"
  shows "\<exists>s'. meet_loop other i s = Some (Inr s') \<and> rep_inv s' \<and>
           m_capacity s' = m_capacity s \<and> elems s' = elems s \<inter> elems other"
  using assms
proof (induction "m_element_num s - i" arbitrary: s i)
  case 0
  then have i: "i = m_element_num s" by simp
  have len: "m_element_num s \<le> length (m_dense s)"
    using "0.prems"(1) by (simp add: rep_inv_def)
  have "elems s \<subseteq> elems other"
    using "0.prems"(4) i elems_nth[OF "0.prems"(1)] by auto
  then have "elems s = elems s \<inter> elems other" by blast
  moreover have "meet_loop other i s = Some (Inr s)"
    using i len by (subst meet_loop.simps) simp
  ultimately show ?case using "0.prems"(1) by simp
next
  case (Suc k)
  let ?n = "m_element_num s"
  let ?e = "m_dense s ! i"
  have lt: "i < ?n" using Suc.hyps(2) by simp
  have len: "?n \<le> length (m_dense s)"
    using Suc.prems(1) by (simp add: rep_inv_def)
  have rd: "vec_at (m_dense s) i = Inr ?e"
    using lt len by (simp add: vec_at_def)
  have ct: "contains other ?e = Inr (?e \<in> elems other)"
    using contains_iff[OF Suc.prems(2)] .
  have ein: "?e \<in> elems s"
    using lt elems_nth[OF Suc.prems(1), of ?e] by blast
  show ?case
  proof (cases "?e \<in> elems other")
    case True
    have step: "meet_loop other i s = meet_loop other (i + 1) s"
      using lt len rd ct True by (subst meet_loop.simps) simp
    have "\<forall>j < i + 1. m_dense s ! j \<in> elems other"
      using Suc.prems(4) True by (simp add: less_Suc_eq)
    moreover have "k = ?n - (i + 1)" using Suc.hyps(2) by simp
    moreover have "i + 1 \<le> ?n" using lt by simp
    ultimately show ?thesis
      using Suc.hyps(1)[of s "i + 1"] Suc.prems(1,2) step by simp
  next
    case False
    let ?s' = "remove_result s ?e"
    have rm: "remove s ?e = Inr ?s'"
      using remove_eq[OF Suc.prems(1), of ?e] ein by simp
    have inv': "rep_inv ?s'" using remove_result_inv[OF Suc.prems(1) ein] .
    have el': "elems ?s' = elems s - {?e}"
      using remove_result_elems[OF Suc.prems(1) ein] .
    have n': "m_element_num ?s' = ?n - 1" and cap': "m_capacity ?s' = m_capacity s"
      by (simp_all add: remove_result_def)
    have idx: "m_sparse s ! ?e = i" using inv_nth(2)[OF Suc.prems(1) lt] .
    have step: "meet_loop other i s = meet_loop other i ?s'"
      using lt len rd ct False rm by (subst meet_loop.simps) simp
    have "m_dense ?s' ! j \<in> elems other" if j: "j < i" for j
    proof -
      have "j < ?n - 1" using j lt by simp
      then have "m_dense ?s' ! j = m_dense s ! j"
        using remove_result_nth[OF Suc.prems(1) ein, of j] idx j by simp
      then show ?thesis using Suc.prems(4) j by simp
    qed
    then have pre: "\<forall>j < i. m_dense ?s' ! j \<in> elems other" by blast
    have "k = m_element_num ?s' - i" using Suc.hyps(2) n' by simp
    moreover have "i \<le> m_element_num ?s'" using lt n' by simp
    ultimately obtain s'' where s'': "meet_loop other i ?s' = Some (Inr s'')" "rep_inv s''"
      "m_capacity s'' = m_capacity ?s'" "elems s'' = elems ?s' \<inter> elems other"
      using Suc.hyps(1)[of ?s' i] inv' Suc.prems(2) pre by blast
    have "elems s'' = elems s \<inter> elems other"
      using s''(4) el' False by blast
    then show ?thesis
      using step s''(1,2,3) cap' by simp
  qed
qed

lemma meet_with_inv:
  assumes "rep_inv s" "rep_inv other"
  shows "\<exists>s'. meet_with s other = Some (Inr (Value, s')) \<and> rep_inv s' \<and>
           m_capacity s' = m_capacity s \<and> elems s' = elems s \<inter> elems other"
proof -
  obtain s' where "meet_loop other 0 s = Some (Inr s')" "rep_inv s'"
    "m_capacity s' = m_capacity s" "elems s' = elems s \<inter> elems other"
    using meet_loop_correct[OF assms, of 0] by auto
  then show ?thesis by (simp add: meet_with_def)
qed

lemma meet_loop_recheck:
  assumes "rep_inv s" "i < m_element_num s"
    "contains other (m_dense s ! i) = Inr False" "remove s (m_dense s ! i) = Inr s'"
  shows "meet_loop other i s = meet_loop other i s'"
proof -
  have len: "m_element_num s \<le> length (m_dense s)"
    using assms(1) by (simp add: rep_inv_def)
  have rd: "vec_at (m_dense s) i = Inr (m_dense s ! i)"
    using assms(2) len by (simp add: vec_at_def)
  show ?thesis
    using assms(2,3,4) len rd by (subst meet_loop.simps) simp
qed

subsection \<open>A value combined with itself\<close>

text \<open>
  In \<^verbatim>\<open>a.join_with(a)\<close> and \<^verbatim>\<open>a.meet_with(a)\<close> the argument is the object being
  changed. On a value that satisfies the invariant no round of either loop changes the
  state: every \<^verbatim>\<open>add\<close> finds its element present, and every \<^verbatim>\<open>contains\<close> is true. The
  argument therefore stays equal to the value it had at the call, which is what the
  model passes.
\<close>

lemma join_with_self:
  assumes "rep_inv s"
  shows "join_with s s = Inr (Value, s)"
proof -
  have "add_all s es = Inr s" if "set es \<subseteq> elems s" for es
    using that
  proof (induction es)
    case Nil
    then show ?case by simp
  next
    case (Cons e es)
    then have "add s e = Inr s" using add_eq[OF assms, of e] by simp
    with Cons show ?case by simp
  qed
  then have "add_all s (take (m_element_num s) (m_dense s)) = Inr s"
    by (simp add: elems_def)
  then show ?thesis
    using elements_eq[OF assms] by (simp add: join_with_def)
qed

lemma meet_loop_self:
  assumes "rep_inv s" "i \<le> m_element_num s"
  shows "meet_loop s i s = Some (Inr s)"
  using assms
proof (induction "m_element_num s - i" arbitrary: i)
  case 0
  then show ?case by (subst meet_loop.simps) (simp add: rep_inv_def)
next
  case (Suc k)
  have lt: "i < m_element_num s" using Suc.hyps(2) by simp
  have len: "m_element_num s \<le> length (m_dense s)"
    using assms(1) by (simp add: rep_inv_def)
  have "m_dense s ! i \<in> elems s"
    using lt elems_nth[OF assms(1), of "m_dense s ! i"] by blast
  then have "contains s (m_dense s ! i) = Inr True"
    using contains_iff[OF assms(1)] by simp
  then have "meet_loop s i s = meet_loop s (i + 1) s"
    using lt len by (subst meet_loop.simps) (simp add: vec_at_def)
  moreover have "meet_loop s (i + 1) s = Some (Inr s)"
    using Suc.hyps(1)[of "i + 1"] Suc.hyps(2) assms(1) lt by simp
  ultimately show ?case by simp
qed

lemma meet_with_self:
  assumes "rep_inv s"
  shows "meet_with s s = Some (Inr (Value, s))"
  using meet_loop_self[OF assms, of 0] by (simp add: meet_with_def)

subsection \<open>Every value a program can build satisfies the invariant\<close>

lemma constructors_inv: "rep_inv SparseSetValue_default" "rep_inv (SparseSetValue_of n)"
  by (simp_all add: rep_inv_def SparseSetValue_default_def SparseSetValue_of_def vec_at_def)

lemma clear_inv: "rep_inv s \<Longrightarrow> rep_inv (clear s)"
  by (simp add: rep_inv_def clear_def)

lemma reachable_inv: "reachable s \<Longrightarrow> rep_inv s"
proof (induction rule: reachable.induct)
  case by_default
  show ?case by (rule constructors_inv)
next
  case (by_capacity max_size)
  show ?case by (rule constructors_inv)
next
  case (by_clear s)
  then show ?case by (simp add: clear_inv)
next
  case (by_add s e s')
  then show ?case using add_inv[of s e] by auto
next
  case (by_remove s e s')
  then show ?case using remove_inv[of s e] by auto
next
  case (by_join s other k s')
  then show ?case using join_with_inv[of s other] by auto
next
  case (by_meet s other k s')
  then show ?case using meet_with_inv[of s other] by auto
qed

section \<open>The claims\<close>

text \<open>
  Claim C1. For values \<open>A\<close> and \<open>B\<close> that satisfy the invariant, \<^verbatim>\<open>A.join_with(B)\<close>
  returns kind \<open>Value\<close> and leaves a state whose element set is the union of the two
  element sets, so that \<^verbatim>\<open>contains\<close> is true on it exactly for the elements that \<open>A\<close>
  or \<open>B\<close> contained; its capacity is the maximum of the two capacities; the dense slots
  \<open>A\<close> had in use are unchanged. On element sets the join is commutative and, with a
  third value \<open>C\<close>, associative.
\<close>

theorem join_with_union:
  assumes "rep_inv A" "rep_inv B" "rep_inv C"
  shows "\<exists>AB BA BC AB_C A_BC.
           join_with A B = Inr (Value, AB) \<and>
           elems AB = elems A \<union> elems B \<and>
           (\<forall>e. contains AB e = Inr (contains A e = Inr True \<or> contains B e = Inr True)) \<and>
           m_capacity AB = max (m_capacity A) (m_capacity B) \<and>
           take (m_element_num A) (m_dense AB) = take (m_element_num A) (m_dense A) \<and>
           join_with B A = Inr (Value, BA) \<and> elems BA = elems AB \<and>
           join_with AB C = Inr (Value, AB_C) \<and>
           join_with B C = Inr (Value, BC) \<and>
           join_with A BC = Inr (Value, A_BC) \<and> elems AB_C = elems A_BC"
proof -
  obtain AB where AB: "join_with A B = Inr (Value, AB)" "rep_inv AB"
    "m_capacity AB = max (m_capacity A) (m_capacity B)" "elems AB = elems A \<union> elems B"
    "take (m_element_num A) (m_dense AB) = take (m_element_num A) (m_dense A)"
    using join_with_inv[OF assms(1,2)] by blast
  obtain BA where BA: "join_with B A = Inr (Value, BA)" "elems BA = elems B \<union> elems A"
    using join_with_inv[OF assms(2,1)] by blast
  obtain BC where BC: "join_with B C = Inr (Value, BC)" "rep_inv BC"
    "elems BC = elems B \<union> elems C"
    using join_with_inv[OF assms(2,3)] by blast
  obtain AB_C where AB_C: "join_with AB C = Inr (Value, AB_C)" "elems AB_C = elems AB \<union> elems C"
    using join_with_inv[OF AB(2) assms(3)] by blast
  obtain A_BC where A_BC: "join_with A BC = Inr (Value, A_BC)" "elems A_BC = elems A \<union> elems BC"
    using join_with_inv[OF assms(1) BC(2)] by blast
  have ct: "contains AB e = Inr (contains A e = Inr True \<or> contains B e = Inr True)" for e
    using contains_iff[OF AB(2), of e] contains_iff[OF assms(1), of e]
      contains_iff[OF assms(2), of e] AB(4) by simp
  have comm: "elems BA = elems AB" using BA(2) AB(4) by blast
  have assoc: "elems AB_C = elems A_BC" using AB_C(2) A_BC(2) AB(4) BC(3) by blast
  show ?thesis
    using AB(1,3,4,5) BA(1) BC(1) AB_C(1) A_BC(1) ct comm assoc by blast
qed

theorem join_with_union_witness:
  "rep_inv scenario_C \<and> rep_inv scenario_D \<and> rep_inv scenario_A \<and>
   join_with scenario_C scenario_D =
     Inr (Value, \<lparr>m_capacity = 10, m_element_num = 3,
                  m_dense = [0, 2, 9, 0, 0, 0, 0, 0, 0, 0],
                  m_sparse = [0, 0, 1, 0, 0, 0, 0, 0, 0, 2]\<rparr>) \<and>
   (\<exists>AB BA. join_with scenario_C scenario_D = Inr (Value, AB) \<and>
      elems AB = elems scenario_C \<union> elems scenario_D \<and>
      m_capacity AB = max (m_capacity scenario_C) (m_capacity scenario_D) \<and>
      join_with scenario_D scenario_C = Inr (Value, BA) \<and> elems BA = elems AB)"
proof -
  have c: "rep_inv scenario_C" by code_simp
  have d: "rep_inv scenario_D" by code_simp
  have a: "rep_inv scenario_A" by code_simp
  have j: "join_with scenario_C scenario_D =
     Inr (Value, \<lparr>m_capacity = 10, m_element_num = 3,
                  m_dense = [0, 2, 9, 0, 0, 0, 0, 0, 0, 0],
                  m_sparse = [0, 0, 1, 0, 0, 0, 0, 0, 0, 2]\<rparr>)"
    by code_simp
  from join_with_union[OF c d a]
  have "\<exists>AB BA. join_with scenario_C scenario_D = Inr (Value, AB) \<and>
      elems AB = elems scenario_C \<union> elems scenario_D \<and>
      m_capacity AB = max (m_capacity scenario_C) (m_capacity scenario_D) \<and>
      join_with scenario_D scenario_C = Inr (Value, BA) \<and> elems BA = elems AB"
    by blast
  with c d a j show ?thesis by blast
qed

text \<open>
  Claim C2. For values \<open>A\<close> and \<open>B\<close> that satisfy the invariant, \<^verbatim>\<open>A.meet_with(B)\<close>
  returns, with kind \<open>Value\<close>, and leaves a state whose element set is the intersection
  of the two element sets: \<^verbatim>\<open>contains\<close> is true on it exactly for the elements that both
  contained. When the element at the iterator's slot is not in \<open>B\<close>, the loop goes on at
  the same slot of the state \<^verbatim>\<open>remove\<close> left, so the element moved into the slot is
  tested before the iterator advances.
\<close>

theorem meet_with_intersection:
  assumes "rep_inv A" "rep_inv B"
  shows "\<exists>A'. meet_with A B = Some (Inr (Value, A')) \<and>
           elems A' = elems A \<inter> elems B \<and>
           (\<forall>e. contains A' e = Inr (contains A e = Inr True \<and> contains B e = Inr True)) \<and>
           (\<forall>i s'. i < m_element_num A \<and> contains B (m_dense A ! i) = Inr False \<and>
                   remove A (m_dense A ! i) = Inr s' \<longrightarrow>
                   meet_loop B i A = meet_loop B i s')"
proof -
  obtain A' where A': "meet_with A B = Some (Inr (Value, A'))" "rep_inv A'"
    "elems A' = elems A \<inter> elems B"
    using meet_with_inv[OF assms] by blast
  have ct: "contains A' e = Inr (contains A e = Inr True \<and> contains B e = Inr True)" for e
    using contains_iff[OF A'(2), of e] contains_iff[OF assms(1), of e]
      contains_iff[OF assms(2), of e] A'(3) by simp
  have "meet_loop B i A = meet_loop B i s'"
    if "i < m_element_num A \<and> contains B (m_dense A ! i) = Inr False \<and>
        remove A (m_dense A ! i) = Inr s'" for i s'
    using meet_loop_recheck[OF assms(1), of i B s'] that by simp
  then show ?thesis
    using A'(1,3) ct by blast
qed

theorem meet_with_intersection_witness:
  "rep_inv scenario_A \<and> rep_inv scenario_B \<and>
   meet_with scenario_A scenario_B =
     Some (Inr (Value, \<lparr>m_capacity = 8, m_element_num = 2,
                        m_dense = [5, 3, 5, 0, 0, 0, 0, 0],
                        m_sparse = [0, 0, 0, 1, 0, 0, 0, 0]\<rparr>)) \<and>
   (\<exists>A'. meet_with scenario_A scenario_B = Some (Inr (Value, A')) \<and>
      elems A' = elems scenario_A \<inter> elems scenario_B)"
proof -
  have a: "rep_inv scenario_A" by code_simp
  have b: "rep_inv scenario_B" by code_simp
  have m: "meet_with scenario_A scenario_B =
     Some (Inr (Value, \<lparr>m_capacity = 8, m_element_num = 2,
                        m_dense = [5, 3, 5, 0, 0, 0, 0, 0],
                        m_sparse = [0, 0, 0, 1, 0, 0, 0, 0]\<rparr>))"
    by code_simp
  from meet_with_intersection[OF a b]
  have "\<exists>A'. meet_with scenario_A scenario_B = Some (Inr (Value, A')) \<and>
      elems A' = elems scenario_A \<inter> elems scenario_B"
    by blast
  with a b m show ?thesis by blast
qed

text \<open>
  Claim C3. For values that satisfy the invariant, \<^verbatim>\<open>A.leq(B)\<close> is true exactly when
  every element \<open>A\<close> contains is contained in \<open>B\<close>. When \<open>A\<close> has more elements than
  \<open>B\<close> it returns false, and then \<open>A\<close> is indeed no subset of \<open>B\<close>. It is reflexive,
  antisymmetric up to \<^verbatim>\<open>equals\<close>, and transitive.
\<close>

theorem leq_partial_order:
  assumes "rep_inv A" "rep_inv B" "rep_inv C"
  shows "leq A B = Inr (\<forall>e. contains A e = Inr True \<longrightarrow> contains B e = Inr True) \<and>
         leq A B = Inr (elems A \<subseteq> elems B) \<and>
         (m_element_num A > m_element_num B \<longrightarrow>
            leq A B = Inr False \<and> \<not> elems A \<subseteq> elems B) \<and>
         leq A A = Inr True \<and>
         (leq A B = Inr True \<and> leq B A = Inr True \<longrightarrow> equals A B = Inr True) \<and>
         (leq A B = Inr True \<and> leq B C = Inr True \<longrightarrow> leq A C = Inr True)"
proof -
  have ab: "leq A B = Inr (elems A \<subseteq> elems B)" using leq_eq[OF assms(1,2)] .
  have ba: "leq B A = Inr (elems B \<subseteq> elems A)" using leq_eq[OF assms(2,1)] .
  have bc: "leq B C = Inr (elems B \<subseteq> elems C)" using leq_eq[OF assms(2,3)] .
  have ac: "leq A C = Inr (elems A \<subseteq> elems C)" using leq_eq[OF assms(1,3)] .
  have aa: "leq A A = Inr True" using leq_eq[OF assms(1,1)] by simp
  have eq: "equals A B = Inr (elems A = elems B)" using equals_eq[OF assms(1,2)] .
  have "(\<forall>e. contains A e = Inr True \<longrightarrow> contains B e = Inr True) = (elems A \<subseteq> elems B)"
    using contains_iff[OF assms(1)] contains_iff[OF assms(2)] by auto
  then have ct: "leq A B = Inr (\<forall>e. contains A e = Inr True \<longrightarrow> contains B e = Inr True)"
    using ab by simp
  have early: "leq A B = Inr False \<and> \<not> elems A \<subseteq> elems B"
    if "m_element_num A > m_element_num B"
    using that ab by (simp add: leq_def)
  have anti: "equals A B = Inr True" if "leq A B = Inr True \<and> leq B A = Inr True"
    using that ab ba eq by auto
  have trans: "leq A C = Inr True" if "leq A B = Inr True \<and> leq B C = Inr True"
    using that ab bc ac by auto
  show ?thesis
    using ct ab early aa anti trans by blast
qed

theorem leq_partial_order_witness:
  "rep_inv scenario_C \<and> rep_inv scenario_D \<and> rep_inv scenario_A \<and>
   leq scenario_C scenario_D = Inr False \<and> leq scenario_C scenario_C = Inr True \<and>
   m_element_num scenario_C > m_element_num scenario_D \<and>
   \<not> elems scenario_C \<subseteq> elems scenario_D \<and>
   leq scenario_A scenario_B = Inr False"
proof -
  have c: "rep_inv scenario_C" by code_simp
  have d: "rep_inv scenario_D" by code_simp
  have a: "rep_inv scenario_A" by code_simp
  have n: "m_element_num scenario_C > m_element_num scenario_D"
    by (simp add: scenario_C_def scenario_D_def)
  have l: "leq scenario_A scenario_B = Inr False" by code_simp
  show ?thesis
    using c d a n l leq_partial_order[OF c d a] by blast
qed

text \<open>
  Claim C4. \<^verbatim>\<open>clear\<close>, \<^verbatim>\<open>add\<close>, \<^verbatim>\<open>remove\<close>, \<^verbatim>\<open>join_with\<close>, \<^verbatim>\<open>widen_with\<close>,
  \<^verbatim>\<open>meet_with\<close> and \<^verbatim>\<open>narrow_with\<close> each return, and leave a state that satisfies the
  representation invariant, when the states they start from do. The invariant gives
  \<open>sparse[dense[i]] == i\<close> for every \<open>i < count\<close> and \<open>count \<le> capacity\<close>;
  \<^verbatim>\<open>size()\<close> is the count. Both constructors establish the invariant.
\<close>

theorem operations_preserve_rep_inv:
  assumes "rep_inv s" "rep_inv other"
  shows "rep_inv (clear s) \<and>
         (\<exists>s'. add s e = Inr s' \<and> rep_inv s') \<and>
         (\<exists>s'. remove s e = Inr s' \<and> rep_inv s') \<and>
         (\<exists>s'. join_with s other = Inr (Value, s') \<and> rep_inv s') \<and>
         (\<exists>s'. widen_with s other = Inr (Value, s') \<and> rep_inv s') \<and>
         (\<exists>s'. meet_with s other = Some (Inr (Value, s')) \<and> rep_inv s') \<and>
         (\<exists>s'. narrow_with s other = Some (Inr (Value, s')) \<and> rep_inv s') \<and>
         (\<forall>i < m_element_num s. m_sparse s ! (m_dense s ! i) = i) \<and>
         m_element_num s \<le> m_capacity s \<and>
         size_of s = m_element_num s \<and>
         rep_inv SparseSetValue_default \<and> rep_inv (SparseSetValue_of max_size)"
proof -
  have "\<exists>s'. add s e = Inr s' \<and> rep_inv s'"
    using add_inv[OF assms(1), of e] by blast
  moreover have "\<exists>s'. remove s e = Inr s' \<and> rep_inv s'"
    using remove_inv[OF assms(1), of e] by blast
  moreover have j: "\<exists>s'. join_with s other = Inr (Value, s') \<and> rep_inv s'"
    using join_with_inv[OF assms] by blast
  moreover have m: "\<exists>s'. meet_with s other = Some (Inr (Value, s')) \<and> rep_inv s'"
    using meet_with_inv[OF assms] by blast
  moreover have "\<exists>s'. widen_with s other = Inr (Value, s') \<and> rep_inv s'"
    using j by (simp add: widen_with_def)
  moreover have "\<exists>s'. narrow_with s other = Some (Inr (Value, s')) \<and> rep_inv s'"
    using m by (simp add: narrow_with_def)
  moreover have "\<forall>i < m_element_num s. m_sparse s ! (m_dense s ! i) = i"
    using inv_nth(2)[OF assms(1)] by blast
  moreover have "m_element_num s \<le> m_capacity s"
    using assms(1) by (simp add: rep_inv_def)
  moreover have "size_of s = m_element_num s" by (simp add: size_of_def)
  ultimately show ?thesis
    using clear_inv[OF assms(1)] constructors_inv by blast
qed

theorem operations_preserve_rep_inv_witness:
  "rep_inv scenario_A \<and> rep_inv scenario_B \<and>
   remove scenario_A 1 =
     Inr \<lparr>m_capacity = 8, m_element_num = 2,
          m_dense = [5, 3, 5, 0, 0, 0, 0, 0], m_sparse = [0, 0, 0, 1, 0, 0, 0, 0]\<rparr> \<and>
   (\<exists>s'. remove scenario_A 1 = Inr s' \<and> rep_inv s') \<and>
   (\<exists>s'. meet_with scenario_A scenario_B = Some (Inr (Value, s')) \<and> rep_inv s') \<and>
   size_of scenario_A = 3"
proof -
  have a: "rep_inv scenario_A" by code_simp
  have b: "rep_inv scenario_B" by code_simp
  have r: "remove scenario_A 1 =
     Inr \<lparr>m_capacity = 8, m_element_num = 2,
          m_dense = [5, 3, 5, 0, 0, 0, 0, 0], m_sparse = [0, 0, 0, 1, 0, 0, 0, 0]\<rparr>"
    by code_simp
  have n: "m_element_num scenario_A = 3" by (simp add: scenario_A_def)
  show ?thesis
    using a b r n operations_preserve_rep_inv[OF a b, of 1] by simp
qed

text \<open>
  Claim C5. On a value that satisfies the representation invariant, \<^verbatim>\<open>contains(e)\<close>
  returns without fault, and it returns true exactly when \<open>e < capacity\<close>,
  \<open>sparse[e] < count\<close> and \<open>dense[sparse[e]] == e\<close>; for \<open>e \<ge> capacity\<close> it returns
  false.
\<close>

theorem contains_spec:
  assumes "rep_inv s"
  shows "contains s e =
           Inr (e < m_capacity s \<and> m_sparse s ! e < m_element_num s \<and>
                m_dense s ! (m_sparse s ! e) = e) \<and>
         (m_capacity s \<le> e \<longrightarrow> contains s e = Inr False)"
  using contains_iff[OF assms, of e] elems_sparse[OF assms, of e]
  by (simp add: contains_def)

theorem contains_spec_witness:
  "rep_inv scenario_A \<and> contains scenario_A 3 = Inr True \<and>
   contains scenario_A 4 = Inr False \<and> contains scenario_A 9 = Inr False"
proof -
  have h: "rep_inv scenario_A" by code_simp
  show ?thesis
    using h contains_spec[OF h, of 3] contains_spec[OF h, of 4] contains_spec[OF h, of 9]
    by (simp add: scenario_A_def)
qed

text \<open>
  Claim C6. On a value that satisfies the representation invariant and for
  \<open>e < capacity\<close>, \<^verbatim>\<open>add(e)\<close> leaves a state in which \<^verbatim>\<open>contains(e)\<close> is
  true; \<^verbatim>\<open>remove(e)\<close> on that state leaves one in which \<^verbatim>\<open>contains(e)\<close> is false, and
  that state is the one before with the count decremented, the last dense entry in use
  copied into the slot of \<open>e\<close>, and the sparse entry of that last element set to the slot.
\<close>

theorem add_then_remove:
  assumes "rep_inv s" "e < m_capacity s"
  shows "\<exists>s1 s2. add s e = Inr s1 \<and> contains s1 e = Inr True \<and>
           remove s1 e = Inr s2 \<and> contains s2 e = Inr False \<and>
           s2 = s1\<lparr>m_element_num := m_element_num s1 - 1,
                   m_dense := (m_dense s1)[m_sparse s1 ! e := m_dense s1 ! (m_element_num s1 - 1)],
                   m_sparse := (m_sparse s1)[m_dense s1 ! (m_element_num s1 - 1) := m_sparse s1 ! e]\<rparr>"
proof -
  obtain s1 where s1: "add s e = Inr s1" "rep_inv s1" "elems s1 = insert e (elems s)"
    using add_inv[OF assms(1), of e] assms(2) by auto
  have in1: "e \<in> elems s1" using s1(3) by simp
  have rm: "remove s1 e = Inr (remove_result s1 e)"
    using remove_eq[OF s1(2), of e] in1 by simp
  have "rep_inv (remove_result s1 e)" "e \<notin> elems (remove_result s1 e)"
    using remove_result_inv[OF s1(2) in1] remove_result_elems[OF s1(2) in1] by simp_all
  then have "contains (remove_result s1 e) e = Inr False"
    using contains_iff[of "remove_result s1 e" e] by simp
  moreover have "contains s1 e = Inr True"
    using contains_iff[OF s1(2), of e] in1 by simp
  ultimately show ?thesis
    using s1(1) rm by (simp add: remove_result_def)
qed

theorem add_then_remove_witness:
  "rep_inv scenario_A \<and> (7::nat) < m_capacity scenario_A \<and>
   add scenario_A 7 =
     Inr \<lparr>m_capacity = 8, m_element_num = 4,
          m_dense = [1, 3, 5, 7, 0, 0, 0, 0], m_sparse = [0, 0, 0, 1, 0, 2, 0, 3]\<rparr> \<and>
   (\<exists>s1 s2. add scenario_A 7 = Inr s1 \<and> contains s1 7 = Inr True \<and>
      remove s1 7 = Inr s2 \<and> contains s2 7 = Inr False)"
proof -
  have h: "rep_inv scenario_A" by code_simp
  have c: "(7::nat) < m_capacity scenario_A" by (simp add: scenario_A_def)
  have a: "add scenario_A 7 =
     Inr \<lparr>m_capacity = 8, m_element_num = 4,
          m_dense = [1, 3, 5, 7, 0, 0, 0, 0], m_sparse = [0, 0, 0, 1, 0, 2, 0, 3]\<rparr>"
    by code_simp
  from add_then_remove[OF h c] have "\<exists>s1 s2. add scenario_A 7 = Inr s1 \<and>
      contains s1 7 = Inr True \<and> remove s1 7 = Inr s2 \<and> contains s2 7 = Inr False"
    by blast
  with h c a show ?thesis by blast
qed

text \<open>
  Claim C7. Whenever \<^verbatim>\<open>add(e)\<close> returns, a second \<^verbatim>\<open>add(e)\<close> returns the same state
  (and on a value that satisfies the invariant \<^verbatim>\<open>add(e)\<close> does return); and when
  \<^verbatim>\<open>contains(e)\<close> is false, \<^verbatim>\<open>remove(e)\<close> returns the state unchanged in all four members.
\<close>

theorem add_idempotent_remove_absent:
  "(\<forall>s1. add s e = Inr s1 \<longrightarrow> add s1 e = Inr s1) \<and>
   (rep_inv s \<longrightarrow> (\<exists>s1. add s e = Inr s1)) \<and>
   (contains s e = Inr False \<longrightarrow> remove s e = Inr s)"
proof (intro conjI allI impI)
  fix s1 assume "add s e = Inr s1"
  then show "add s1 e = Inr s1"
    by (auto simp: add_def vec_at_def vec_put_def Let_def split: if_splits)
next
  assume "rep_inv s"
  then show "\<exists>s1. add s e = Inr s1" using add_eq[of s e] by simp
next
  assume "contains s e = Inr False"
  then show "remove s e = Inr s"
    by (auto simp: contains_def remove_def vec_at_def Let_def split: if_splits)
qed

theorem add_idempotent_remove_absent_witness:
  "add scenario_A 7 =
     Inr \<lparr>m_capacity = 8, m_element_num = 4,
          m_dense = [1, 3, 5, 7, 0, 0, 0, 0], m_sparse = [0, 0, 0, 1, 0, 2, 0, 3]\<rparr> \<and>
   add \<lparr>m_capacity = 8, m_element_num = 4,
        m_dense = [1, 3, 5, 7, 0, 0, 0, 0], m_sparse = [0, 0, 0, 1, 0, 2, 0, 3]\<rparr> 7 =
     Inr \<lparr>m_capacity = 8, m_element_num = 4,
          m_dense = [1, 3, 5, 7, 0, 0, 0, 0], m_sparse = [0, 0, 0, 1, 0, 2, 0, 3]\<rparr> \<and>
   rep_inv scenario_A \<and>
   contains scenario_A 7 = Inr False \<and> remove scenario_A 7 = Inr scenario_A"
proof -
  have a: "add scenario_A 7 =
     Inr \<lparr>m_capacity = 8, m_element_num = 4,
          m_dense = [1, 3, 5, 7, 0, 0, 0, 0], m_sparse = [0, 0, 0, 1, 0, 2, 0, 3]\<rparr>"
    by code_simp
  have h: "rep_inv scenario_A" by code_simp
  have c: "contains scenario_A 7 = Inr False" by code_simp
  show ?thesis
    using a h c add_idempotent_remove_absent[of scenario_A 7] by simp
qed

text \<open>
  Claim C8. \<^verbatim>\<open>add(e)\<close> with \<open>e \<ge> capacity\<close> returns the state unchanged, whatever the
  state. The default-constructed value has capacity 0, so every \<^verbatim>\<open>add\<close> on it, and every
  sequence of them, leaves it as it is: no element, and \<^verbatim>\<open>contains\<close> false everywhere.
\<close>

theorem add_beyond_capacity:
  "(m_capacity s \<le> e \<longrightarrow> add s e = Inr s) \<and>
   m_capacity SparseSetValue_default = 0 \<and>
   add SparseSetValue_default e = Inr SparseSetValue_default \<and>
   add_all SparseSetValue_default es = Inr SparseSetValue_default \<and>
   elements SparseSetValue_default = Inr [] \<and>
   contains SparseSetValue_default e = Inr False"
proof -
  have a: "add SparseSetValue_default x = Inr SparseSetValue_default" for x
    by (simp add: add_def SparseSetValue_default_def)
  have "add_all SparseSetValue_default es = Inr SparseSetValue_default"
    by (induction es) (simp_all add: a)
  then show ?thesis
    using a by (simp add: add_def elements_def contains_def SparseSetValue_default_def)
qed

theorem add_beyond_capacity_witness:
  "m_capacity scenario_A \<le> 8 \<and> add scenario_A 8 = Inr scenario_A \<and>
   add_all SparseSetValue_default [0, 1, 2] = Inr SparseSetValue_default"
  using add_beyond_capacity[of scenario_A 8 "[0, 1, 2]"] by (simp add: scenario_A_def)

text \<open>
  Claim C9. \<^verbatim>\<open>widen_with\<close> yields the state and the kind of \<^verbatim>\<open>join_with\<close>, and
  \<^verbatim>\<open>narrow_with\<close> those of \<^verbatim>\<open>meet_with\<close>, on all arguments.
\<close>

theorem widen_narrow_delegate:
  "widen_with s other = join_with s other \<and> narrow_with s other = meet_with s other"
  by (simp add: widen_with_def narrow_with_def)

theorem widen_narrow_delegate_witness:
  "widen_with scenario_A scenario_B = join_with scenario_A scenario_B \<and>
   narrow_with scenario_A scenario_B = meet_with scenario_A scenario_B"
  using widen_narrow_delegate[of scenario_A scenario_B] by simp

text \<open>
  Claim C10. On values that satisfy the representation invariant, \<^verbatim>\<open>contains\<close>,
  \<^verbatim>\<open>add\<close>, \<^verbatim>\<open>remove\<close>, \<^verbatim>\<open>join_with\<close> and \<^verbatim>\<open>meet_with\<close> never make an access outside
  a vector: with every read and write checked, none of them ends in \<open>OutOfBounds\<close>, and
  the loop of \<^verbatim>\<open>meet_with\<close> ends.
\<close>

theorem accesses_in_bounds:
  assumes "rep_inv s" "rep_inv other"
  shows "contains s e \<noteq> Inl OutOfBounds \<and>
         add s e \<noteq> Inl OutOfBounds \<and>
         remove s e \<noteq> Inl OutOfBounds \<and>
         join_with s other \<noteq> Inl OutOfBounds \<and>
         meet_with s other \<noteq> Some (Inl OutOfBounds) \<and>
         meet_with s other \<noteq> None"
proof -
  have "contains s e \<noteq> Inl OutOfBounds"
    using contains_iff[OF assms(1), of e] by simp
  moreover have "add s e \<noteq> Inl OutOfBounds"
    using add_eq[OF assms(1), of e] by simp
  moreover have "remove s e \<noteq> Inl OutOfBounds"
    using remove_eq[OF assms(1), of e] by simp
  moreover have "join_with s other \<noteq> Inl OutOfBounds"
    using join_with_inv[OF assms] by auto
  moreover have "meet_with s other \<noteq> Some (Inl OutOfBounds) \<and> meet_with s other \<noteq> None"
    using meet_with_inv[OF assms] by auto
  ultimately show ?thesis by blast
qed

theorem accesses_in_bounds_witness:
  "rep_inv scenario_D \<and> rep_inv scenario_B \<and>
   contains scenario_D 0 = Inr False \<and>
   add scenario_D 0 \<noteq> Inl OutOfBounds \<and> remove scenario_D 9 \<noteq> Inl OutOfBounds \<and>
   join_with scenario_D scenario_B \<noteq> Inl OutOfBounds \<and>
   meet_with scenario_D scenario_B \<noteq> Some (Inl OutOfBounds) \<and>
   meet_with scenario_D scenario_B \<noteq> None \<and>
   contains (scenario_D\<lparr>m_element_num := 11, m_sparse := [0, 0, 0, 10, 0, 0, 0, 0, 0, 0]\<rparr>) 3
     = Inl OutOfBounds"
proof -
  have d: "rep_inv scenario_D" by code_simp
  have b: "rep_inv scenario_B" by code_simp
  have c: "contains scenario_D 0 = Inr False" by code_simp
  have x: "contains (scenario_D\<lparr>m_element_num := 11, m_sparse := [0, 0, 0, 10, 0, 0, 0, 0, 0, 0]\<rparr>) 3
     = Inl OutOfBounds"
    by code_simp
  show ?thesis
    using d b c x accesses_in_bounds[OF d b, of 0] accesses_in_bounds[OF d b, of 9] by simp
qed

end
